theory Spec2Isabelle
  imports Complex_Main "HOL-Library.Word"
begin

section \<open>Machine types and external collaborators\<close>

text \<open>
  The firmware runs on an 8-bit AVR. Its \<open>uint8\<close>, \<open>uint16\<close> and \<open>uint32\<close> are words of
  that width: addition and subtraction wrap around, comparisons are unsigned.
\<close>

type_synonym uint8 = "8 word"
type_synonym uint16 = "16 word"
type_synonym uint32 = "32 word"

text \<open>
  The message codes of \<open>display_messages::code\<close> are declared in a header that is not part
  of the sources at hand. Their values are therefore a parameter of the model: every result
  below holds for any choice of the three constants.
\<close>

record display_message_codes =
  kNone :: uint8
  kSplashScreen :: uint8
  kAnalysisReset :: uint8

text \<open>
  Modelled from the spec: \<open>PassiveTimer\<close> (passive_timer.h is not among the sources) is
  "a monotonic millisecond elapsed-time reader with restart/reset capability". The timer
  stores the clock reading of its last restart; \<open>timeMillis\<close> is the clock reading now minus
  that stamp, in 32-bit unsigned arithmetic. The clock reading itself (\<open>millis()\<close>) is an
  input of every operation that looks at the time.
\<close>

record PassiveTimer =
  start_time_millis :: uint32

definition restart :: "uint32 \<Rightarrow> PassiveTimer \<Rightarrow> PassiveTimer" where
  "restart now t = t\<lparr>start_time_millis := now\<rparr>"

definition timeMillis :: "uint32 \<Rightarrow> PassiveTimer \<Rightarrow> uint32" where
  "timeMillis now t = now - start_time_millis t"

text \<open>
  Modelled from the spec: the U8glib display object \<open>u8g\<close> is "an opaque drawing surface
  exposing line/text primitives and a page-based refresh protocol". It is modelled by the
  sequence of calls issued to it, oldest first. The picture loop
  \<open>firstPage(); do { ... } while (nextPage());\<close> runs its body once per page; the device
  declared in display.cpp is the 2X-buffered 128x64 one, "which results in 4 drawing
  passes".
\<close>

datatype u8g_font = u8g_font_8x13

datatype u8g_call =
    setColorIndex uint8
  | setFont u8g_font
  | drawStr uint8 uint8 string
  | drawLine uint8 uint8 uint8 uint8
  | drawRFrame uint8 uint8 uint8 uint8 uint8
  | firstPage
  | nextPage

definition kDrawingPasses :: nat where
  "kDrawingPasses = 4"

section \<open>The state of display.cpp\<close>

record display_state =
  u8g :: "u8g_call list"
  current_display_message_code :: uint8
  current_display_message_min_time_millis :: uint16
  time_in_current_display_message :: PassiveTimer
  graph_y_points :: "uint8 list"
  graph_first_y_index :: uint8
  graph_active_y_count :: uint8

definition kGraphMaxPoints :: uint8 where
  "kGraphMaxPoints = 64"

definition u8g_do :: "u8g_call \<Rightarrow> display_state \<Rightarrow> display_state" where
  "u8g_do c s = s\<lparr>u8g := u8g s @ [c]\<rparr>"

text \<open>
  C++ does not check array indices. In the model an access outside the array yields
  \<open>None\<close>, so that "the operation returns \<open>Some\<close>" says that every index it used was
  inside the array.
\<close>

definition array_read :: "uint8 list \<Rightarrow> uint8 \<Rightarrow> uint8 option" where
  "array_read a i = (if unat i < length a then Some (a ! unat i) else None)"

definition array_write :: "uint8 list \<Rightarrow> uint8 \<Rightarrow> uint8 \<Rightarrow> uint8 list option" where
  "array_write a i v = (if unat i < length a then Some (a[unat i := v]) else None)"

section \<open>Graph buffer\<close>

definition clearGraphBuffer :: "display_state \<Rightarrow> display_state" where
  "clearGraphBuffer s = s\<lparr>graph_first_y_index := 0, graph_active_y_count := 0\<rparr>"

definition incrementGraphIndex :: "uint8 \<Rightarrow> uint8" where
  "incrementGraphIndex index =
     (let index1 = index + 1 in if index1 \<ge> kGraphMaxPoints then 0 else index1)"

subsection \<open>Current to pixel row\<close>

text \<open>
  The conversion of a floating point value to \<open>int\<close> drops the fractional part.
\<close>

definition float_to_int :: "real \<Rightarrow> int" where
  "float_to_int r = (if 0 \<le> r then \<lfloor>r\<rfloor> else \<lceil>r\<rceil>)"

definition kA :: uint16 where "kA = 30"
definition kB :: uint16 where "kB = 7"
definition kC :: uint16 where "kC = 23"

text \<open>
  Modelled from the spec: \<open>log\<close> of math.h is not among the sources; the spec gives the
  transform as \<open>y = plotBottom - round(B * ln(value + A) - C)\<close>. \<open>scalledValue\<close> is the
  source's \<open>0.5f + ((log(current_milli_amps + kA) * kB) - kC)\<close> converted to \<open>int\<close>,
  with \<open>log\<close> the natural logarithm \<open>ln\<close> and the floating point operations read as the
  operations on the reals that they approximate.
\<close>

definition scalledValue :: "uint16 \<Rightarrow> int" where
  "scalledValue current_milli_amps =
     float_to_int (0.5 +
       ((ln (real (unat (current_milli_amps + kA))) * real (unat kB)) - real (unat kC)))"

definition currentMilliAmpsToDisplayY :: "uint16 \<Rightarrow> uint8" where
  "currentMilliAmpsToDisplayY current_milli_amps =
     (let clipped = (if current_milli_amps > 2000 then 2000 else current_milli_amps)
      in word_of_int (63 - scalledValue clipped))"

subsection \<open>Appending a sample\<close>

definition appendGraphPoint :: "uint16 \<Rightarrow> display_state \<Rightarrow> display_state option" where
  "appendGraphPoint current_milli_amps s =
     (let y_value = currentMilliAmpsToDisplayY current_milli_amps in
      if graph_active_y_count s = kGraphMaxPoints then
        (case array_write (graph_y_points s) (graph_first_y_index s) y_value of
           None \<Rightarrow> None
         | Some pts \<Rightarrow>
             Some (s\<lparr>graph_y_points := pts,
                      graph_first_y_index := incrementGraphIndex (graph_first_y_index s)\<rparr>))
      else
        (let insertion_index0 = graph_first_y_index s + graph_active_y_count s;
             insertion_index =
               (if insertion_index0 \<ge> kGraphMaxPoints
                then insertion_index0 - kGraphMaxPoints else insertion_index0)
         in case array_write (graph_y_points s) insertion_index y_value of
              None \<Rightarrow> None
            | Some pts \<Rightarrow>
                Some (s\<lparr>graph_y_points := pts,
                         graph_active_y_count := graph_active_y_count s + 1\<rparr>)))"

text \<open>A sequence of \<open>appendGraphPoint\<close> calls, in call order.\<close>

fun appendGraphPoints :: "uint16 list \<Rightarrow> display_state \<Rightarrow> display_state option" where
  "appendGraphPoints [] s = Some s"
| "appendGraphPoints (c # cs) s =
     (case appendGraphPoint c s of None \<Rightarrow> None | Some s1 \<Rightarrow> appendGraphPoints cs s1)"

text \<open>
  The entries of the buffer, read from the oldest index for \<open>graph_active_y_count\<close> steps,
  wrapping modulo 64.
\<close>

definition graphBufferEntries :: "display_state \<Rightarrow> uint8 list" where
  "graphBufferEntries s =
     map (\<lambda>i. graph_y_points s ! ((unat (graph_first_y_index s) + i) mod 64))
       [0..<unat (graph_active_y_count s)]"

section \<open>Text formatting\<close>

text \<open>
  \<open>snprintf(bfr, size, "%<w>d...", v)\<close>: the \<open>uint16\<close> argument is read by \<open>%d\<close> as a
  16-bit \<open>int\<close>, printed in decimal, padded with blanks on the left to the field width;
  at most \<open>size - 1\<close> characters are stored.
\<close>

fun dec_digits :: "nat \<Rightarrow> string" where
  "dec_digits n =
     (if n < 10 then [char_of (48 + n)]
      else dec_digits (n div 10) @ [char_of (48 + n mod 10)])"

definition printf_d :: "nat \<Rightarrow> int \<Rightarrow> string" where
  "printf_d width v =
     (let body = (if v < 0 then CHR ''-'' # dec_digits (nat (- v)) else dec_digits (nat v))
      in replicate (width - length body) CHR '' '' @ body)"

definition snprintf :: "nat \<Rightarrow> string \<Rightarrow> string" where
  "snprintf size_bfr str = take (size_bfr - 1) str"

section \<open>Drawing one stripe\<close>

function drawGraphPage_loop ::
  "uint8 list \<Rightarrow> uint8 \<Rightarrow> uint8 \<Rightarrow> uint8 \<Rightarrow> uint8 \<Rightarrow> uint8 \<Rightarrow> display_state
     \<Rightarrow> (uint8 \<times> display_state) option" where
  "drawGraphPage_loop pts cnt i index last_x last_y s =
     (if i < cnt then
        (let index1 = (if index + 1 \<ge> kGraphMaxPoints then 0 else index + 1) in
         case array_read pts index1 of
           None \<Rightarrow> None
         | Some y \<Rightarrow>
             (let x = last_x + 2 in
              drawGraphPage_loop pts cnt (i + 1) index1 x y
                (u8g_do (drawLine last_x last_y x y) s)))
      else Some (last_x, s))"
  by pat_completeness auto
termination
proof (relation "measure (\<lambda>(pts, cnt, i, index, last_x, last_y, s). unat cnt - unat i)")
  show "wf (measure (\<lambda>(pts, cnt, i, index, last_x, last_y, s). unat cnt - unat i))"
    by simp
next
  fix pts :: "uint8 list" and cnt i index last_x last_y :: uint8 and s :: display_state
    and x2 xa xb
  assume "i < cnt"
  then have "unat i < unat cnt"
    by (simp add: word_less_nat_alt)
  moreover from \<open>i < cnt\<close> have "unat (i + 1) = unat i + 1"
    by unat_arith
  ultimately show "((pts, cnt, i + 1, xa, xb, x2, u8g_do (drawLine last_x last_y xb x2) s),
          (pts, cnt, i, index, last_x, last_y, s))
         \<in> measure (\<lambda>(pts, cnt, i, index, last_x, last_y, s). unat cnt - unat i)"
    by simp
qed

declare drawGraphPage_loop.simps [simp del]

definition drawGraphPage ::
  "uint8 \<Rightarrow> string \<Rightarrow> string \<Rightarrow> display_state \<Rightarrow> display_state option" where
  "drawGraphPage drawing_stripe_index current average_current s =
     (let s1 = (if drawing_stripe_index = 0 then
                  u8g_do (drawStr 70 10 current)
                    (u8g_do (drawStr 0 10 ''Current'')
                      (u8g_do (setFont u8g_font_8x13) s))
                else s);
          s2 = (if drawing_stripe_index = 1 then
                  u8g_do (drawStr 70 25 average_current)
                    (u8g_do (drawStr 0 25 ''Average'')
                      (u8g_do (setFont u8g_font_8x13) s1))
                else s1);
          r3 = (if drawing_stripe_index \<ge> 2 then
                  (case array_read (graph_y_points s2) (graph_first_y_index s2) of
                     None \<Rightarrow> None
                   | Some last_y \<Rightarrow>
                       (case drawGraphPage_loop (graph_y_points s2) (graph_active_y_count s2)
                               1 (graph_first_y_index s2) 0 last_y s2 of
                          None \<Rightarrow> None
                        | Some (last_x, s3) \<Rightarrow>
                            Some (u8g_do (drawLine (last_x + 1) 63 (last_x + 1) 32) s3)))
                else Some s2)
      in case r3 of
           None \<Rightarrow> None
         | Some s3 \<Rightarrow>
             Some (if drawing_stripe_index = 3 then u8g_do (drawLine 0 63 127 63) s3
                   else s3))"

definition drawSummaryPage ::
  "uint8 \<Rightarrow> uint16 \<Rightarrow> uint16 \<Rightarrow> uint16 \<Rightarrow> uint16 \<Rightarrow> display_state \<Rightarrow> display_state" where
  "drawSummaryPage drawing_stripe_index current_milli_amps average_current_milli_amps
       total_charge_mah time_seconds s =
     (let s0 = u8g_do (setFont u8g_font_8x13) s;
          s1 = (if drawing_stripe_index = 0 then
                  u8g_do (drawStr 103 10 ''ma'')
                    (u8g_do (drawStr 65 10 (snprintf 12 (printf_d 4 (sint current_milli_amps))))
                      (u8g_do (drawStr 0 10 ''I'') s0))
                else s0);
          s2 = (if drawing_stripe_index = 1 then
                  u8g_do (drawStr 103 27 ''ma'')
                    (u8g_do (drawStr 65 27
                        (snprintf 12 (printf_d 4 (sint average_current_milli_amps))))
                      (u8g_do (drawStr 0 27 ''Iavg'') s1))
                else s1);
          s3 = (if drawing_stripe_index = 2 then
                  u8g_do (drawStr 103 44 ''mah'')
                    (u8g_do (drawStr 65 44 (snprintf 12 (printf_d 4 (sint total_charge_mah))))
                      (u8g_do (drawStr 0 44 ''Q'') s2))
                else s2)
      in if drawing_stripe_index = 3 then
           u8g_do (drawStr 101 61 ''sec'')
             (u8g_do (drawStr 49 61 (snprintf 12 (printf_d 6 (sint time_seconds))))
               (u8g_do (drawStr 0 61 ''T'') s3))
         else s3)"

definition drawCurrentDisplayMessage ::
  "display_message_codes \<Rightarrow> display_state \<Rightarrow> display_state" where
  "drawCurrentDisplayMessage K s =
     (let s1 = u8g_do (drawRFrame 0 0 128 64 5) (u8g_do (setFont u8g_font_8x13) s) in
      if current_display_message_code s = kSplashScreen K then
        u8g_do (drawStr 27 54 ''Ver 0.100'')
          (u8g_do (drawStr 30 37 ''UNO OLED'')
            (u8g_do (drawStr 22 19 ''Power Play'') s1))
      else if current_display_message_code s = kAnalysisReset K then
        u8g_do (drawStr 27 45 ''Restarted'')
          (u8g_do (drawStr 27 26 ''Analysis'') s1)
      else
        u8g_do (drawStr 65 30
            (snprintf 12 (printf_d 4 (uint (current_display_message_code s)))))
          (u8g_do (drawStr 0 30 ''Message: '') s1))"

section \<open>Message overlay and the render entry points\<close>

text \<open>\<open>display::setup()\<close>.\<close>

definition display_setup :: "uint32 \<Rightarrow> display_message_codes \<Rightarrow> display_state \<Rightarrow> display_state" where
  "display_setup now K s =
     u8g_do (setColorIndex 1)
       (clearGraphBuffer
         (s\<lparr>current_display_message_code := kNone K,
             current_display_message_min_time_millis := 0,
             time_in_current_display_message :=
               restart now (time_in_current_display_message s)\<rparr>))"

definition isActiveDisplayMessage ::
  "uint32 \<Rightarrow> display_message_codes \<Rightarrow> display_state \<Rightarrow> bool \<times> display_state" where
  "isActiveDisplayMessage now K s =
     (if current_display_message_code s = kNone K then (False, s)
      else if timeMillis now (time_in_current_display_message s)
                < ucast (current_display_message_min_time_millis s)
      then (True, s)
      else (False, s\<lparr>current_display_message_code := kNone K\<rparr>))"

text \<open>
  The picture loop \<open>do { draw(stripe++) } while (u8g.nextPage())\<close>; the first argument
  counts the pages that remain after the current one.
\<close>

primrec picture_loop ::
  "nat \<Rightarrow> (uint8 \<Rightarrow> display_state \<Rightarrow> display_state option) \<Rightarrow> uint8 \<Rightarrow> display_state
     \<Rightarrow> display_state option" where
  "picture_loop 0 draw drawing_stripe_index s =
     (case draw drawing_stripe_index s of
        None \<Rightarrow> None
      | Some s1 \<Rightarrow> Some (u8g_do nextPage s1))"
| "picture_loop (Suc n) draw drawing_stripe_index s =
     (case draw drawing_stripe_index s of
        None \<Rightarrow> None
      | Some s1 \<Rightarrow> picture_loop n draw (drawing_stripe_index + 1) (u8g_do nextPage s1))"

definition renderGraphPage ::
  "uint32 \<Rightarrow> display_message_codes \<Rightarrow> uint16 \<Rightarrow> uint16 \<Rightarrow> display_state
     \<Rightarrow> display_state option" where
  "renderGraphPage now K current_milli_amps average_current_milli_amps s =
     (case isActiveDisplayMessage now K s of
        (True, s1) \<Rightarrow> Some s1
      | (False, s1) \<Rightarrow>
          (let bfr1 = snprintf 10 (printf_d 4 (sint current_milli_amps) @ '' ma'');
               bfr2 = snprintf 10 (printf_d 4 (sint average_current_milli_amps) @ '' ma'')
           in picture_loop (kDrawingPasses - 1) (\<lambda>i. drawGraphPage i bfr1 bfr2) 0
                (u8g_do firstPage s1)))"

definition renderSummaryPage ::
  "uint32 \<Rightarrow> display_message_codes \<Rightarrow> uint16 \<Rightarrow> uint16 \<Rightarrow> uint16 \<Rightarrow> uint16 \<Rightarrow> display_state
     \<Rightarrow> display_state option" where
  "renderSummaryPage now K current_milli_amps average_current_milli_amps total_charge_mah
       time_seconds s =
     (case isActiveDisplayMessage now K s of
        (True, s1) \<Rightarrow> Some s1
      | (False, s1) \<Rightarrow>
          picture_loop (kDrawingPasses - 1)
            (\<lambda>i s2. Some (drawSummaryPage i current_milli_amps average_current_milli_amps
                            total_charge_mah time_seconds s2))
            0 (u8g_do firstPage s1))"

definition renderCurrentDisplayMessage ::
  "display_message_codes \<Rightarrow> display_state \<Rightarrow> display_state" where
  "renderCurrentDisplayMessage K s =
     the (picture_loop (kDrawingPasses - 1) (\<lambda>i s1. Some (drawCurrentDisplayMessage K s1))
            0 (u8g_do firstPage s))"

definition activateDisplayMessage ::
  "uint32 \<Rightarrow> display_message_codes \<Rightarrow> uint8 \<Rightarrow> uint16 \<Rightarrow> display_state \<Rightarrow> display_state" where
  "activateDisplayMessage now K display_message_code min_display_time_millis s =
     (let previous_display_message_code = current_display_message_code s;
          s1 = s\<lparr>current_display_message_code := display_message_code,
                 current_display_message_min_time_millis := min_display_time_millis,
                 time_in_current_display_message :=
                   restart now (time_in_current_display_message s)\<rparr>
      in if display_message_code = kNone K
            \<or> display_message_code = previous_display_message_code
         then s1
         else renderCurrentDisplayMessage K s1)"

text \<open>A sequence of \<open>isActiveDisplayMessage\<close> calls at the given clock readings.\<close>

fun isActiveDisplayMessage_calls ::
  "uint32 list \<Rightarrow> display_message_codes \<Rightarrow> display_state \<Rightarrow> bool list \<times> display_state" where
  "isActiveDisplayMessage_calls [] K s = ([], s)"
| "isActiveDisplayMessage_calls (now # nows) K s =
     (case isActiveDisplayMessage now K s of
        (b, s1) \<Rightarrow>
          (case isActiveDisplayMessage_calls nows K s1 of (bs, s2) \<Rightarrow> (b # bs, s2)))"

section \<open>Well-formed graph buffers and concrete inputs\<close>

text \<open>
  The invariant of the graph buffer: the array has its 64 slots, the index of the oldest
  entry is inside the array, and the count does not exceed the capacity.
\<close>

definition graph_buffer_inv :: "display_state \<Rightarrow> bool" where
  "graph_buffer_inv s =
     (length (graph_y_points s) = 64 \<and> graph_first_y_index s < 64
      \<and> graph_active_y_count s \<le> 64)"

text \<open>
  Concrete inputs for the instances below: a choice of message codes, the state of the
  statics at program start (before \<open>setup\<close>), and a state in which the splash message has
  been showing since clock reading 0 with a minimum time of 1000 ms.
\<close>

definition example_codes :: display_message_codes where
  "example_codes = \<lparr>kNone = 0, kSplashScreen = 1, kAnalysisReset = 2\<rparr>"

definition zero_state :: display_state where
  "zero_state =
     \<lparr>u8g = [],
      current_display_message_code = 0,
      current_display_message_min_time_millis = 0,
      time_in_current_display_message = \<lparr>start_time_millis = 0\<rparr>,
      graph_y_points = replicate 64 0,
      graph_first_y_index = 0,
      graph_active_y_count = 0\<rparr>"

definition splash_state :: display_state where
  "splash_state =
     zero_state\<lparr>current_display_message_code := 1,
                 current_display_message_min_time_millis := 1000\<rparr>"

section \<open>Verification\<close>

subsection \<open>Bounds on the natural logarithm\<close>

lemma exp_1_lower: "(271/100::real) \<le> exp 1"
proof -
  have "(545/512::real) \<le> exp (1/16)"
    using exp_lower_Taylor_quadratic [of "1/16::real"] by (simp add: power2_eq_square)
  then have "(545/512::real) ^ 16 \<le> exp (1/16) ^ 16"
    by (intro power_mono) simp_all
  moreover have "exp (1/16::real) ^ 16 = exp 1"
    using exp_of_nat_mult [of 16 "1/16::real"] by simp
  moreover have "(271/100::real) \<le> (545/512) ^ 16"
    by (simp add: power_divide)
  ultimately show ?thesis by linarith
qed

lemma exp_1_upper: "exp 1 \<le> (274/100::real)"
proof -
  have "exp (1/64) \<le> (4161/4096::real)"
    using exp_bound [of "1/64::real"] by (simp add: power2_eq_square)
  then have "exp (1/64::real) ^ 64 \<le> (4161/4096::real) ^ 64"
    by (intro power_mono) simp_all
  moreover have "exp (1/64::real) ^ 64 = exp 1"
    using exp_of_nat_mult [of 64 "1/64::real"] by simp
  moreover have "(4161/4096::real) ^ 64 \<le> 274/100"
    by (simp add: power_divide)
  ultimately show ?thesis by linarith
qed

lemma ln_lower_bound:
  fixes x :: real
  assumes "0 < x" and "0 < q" and "(274/100) ^ p \<le> x ^ q"
  shows "real p / real q \<le> ln x"
proof -
  have "exp (real p) = exp 1 ^ p"
    using exp_of_nat_mult [of p "1::real"] by simp
  also have "\<dots> \<le> (274/100) ^ p"
    by (intro power_mono exp_1_upper) simp
  also have "\<dots> \<le> x ^ q" by fact
  finally have "real p \<le> ln (x ^ q)"
    using assms(1) by (simp add: ln_ge_iff)
  then have "real p \<le> real q * ln x"
    by (simp add: ln_realpow)
  then show ?thesis using assms(2)
    by (simp add: field_simps)
qed

lemma ln_upper_bound:
  fixes x :: real
  assumes "0 < x" and "0 < q" and "x ^ q < (271/100) ^ p"
  shows "ln x < real p / real q"
proof -
  have "x ^ q < (271/100) ^ p" by fact
  also have "\<dots> \<le> exp 1 ^ p"
    by (intro power_mono exp_1_lower) simp
  also have "\<dots> = exp (real p)"
    using exp_of_nat_mult [of p "1::real"] by simp
  finally have "x ^ q < exp (real p)" .
  then have "ln (x ^ q) < ln (exp (real p))"
    using assms(1) by (subst ln_less_cancel_iff) simp_all
  then have "real q * ln x < real p"
    by (simp add: ln_realpow)
  then show ?thesis using assms(2)
    by (simp add: field_simps)
qed

lemma ln_30_lower: "47/14 \<le> ln (30::real)"
proof -
  have "(274/100::real) ^ 47 \<le> 30 ^ 14" by (simp add: power_divide)
  from ln_lower_bound [where x = 30 and q = 14 and p = 47, OF _ _ this]
  show ?thesis by simp
qed

lemma ln_30_upper: "ln (30::real) < 7/2"
proof -
  have "(30::real) ^ 2 < (271/100) ^ 7" by (simp add: power_divide)
  from ln_upper_bound [where x = 30 and q = 2 and p = 7, OF _ _ this]
  show ?thesis by simp
qed

lemma ln_2030_lower: "15/2 \<le> ln (2030::real)"
proof -
  have "(274/100::real) ^ 15 \<le> 2030 ^ 2" by (simp add: power_divide)
  from ln_lower_bound [where x = 2030 and q = 2 and p = 15, OF _ _ this]
  show ?thesis by simp
qed

lemma ln_2030_upper: "ln (2030::real) < 107/14"
proof -
  have "(2030::real) ^ 14 < (271/100) ^ 107" by (simp add: power_divide)
  from ln_upper_bound [where x = 2030 and q = 14 and p = 107, OF _ _ this]
  show ?thesis by simp
qed

subsection \<open>The current to pixel mapping\<close>

lemma ln_nat_mono: "m \<le> n \<Longrightarrow> ln (real (m + 30)) \<le> ln (real (n + 30))"
  by (subst ln_le_cancel_iff) simp_all

lemma unat_plus_kA:
  assumes "x \<le> (2000::uint16)"
  shows "unat (x + kA) = unat x + 30"
proof -
  from assms have "unat x \<le> 2000" by (simp add: word_le_nat_alt)
  then show ?thesis by (simp add: kA_def unat_word_ariths)
qed

lemma scalledValue_floor:
  assumes "x \<le> (2000::uint16)"
  shows "scalledValue x = \<lfloor>ln (real (unat x + 30)) * 7 - 45/2\<rfloor>"
    and "1 \<le> scalledValue x" and "scalledValue x \<le> 30"
proof -
  let ?r = "ln (real (unat x + 30)) * 7 - 45/2"
  from assms have le: "unat x \<le> 2000" by (simp add: word_le_nat_alt)
  have "ln (real (0 + 30)) \<le> ln (real (unat x + 30))"
    by (rule ln_nat_mono) simp
  then have "ln 30 \<le> ln (real (unat x + 30))" by simp
  with ln_30_lower have lo: "1 \<le> ?r" by simp
  have "ln (real (unat x + 30)) \<le> ln (real (2000 + 30))"
    using le by (rule ln_nat_mono)
  then have "ln (real (unat x + 30)) \<le> ln 2030" by simp
  with ln_2030_upper have hi: "?r < 31" by simp
  have eq: "0.5 + ((ln (real (unat (x + kA))) * real (unat kB)) - real (unat kC)) = ?r"
    by (simp add: unat_plus_kA [OF assms] kB_def kC_def)
  from lo show 1: "scalledValue x = \<lfloor>?r\<rfloor>"
    unfolding scalledValue_def eq float_to_int_def by simp
  from lo show "1 \<le> scalledValue x" unfolding 1 by linarith
  from hi show "scalledValue x \<le> 30" unfolding 1 by linarith
qed

lemma scalledValue_mono:
  assumes "x \<le> y" and "y \<le> (2000::uint16)"
  shows "scalledValue x \<le> scalledValue y"
proof -
  from assms have x: "x \<le> 2000" by simp
  from assms(1) have "unat x \<le> unat y" by (simp add: word_le_nat_alt)
  then have "ln (real (unat x + 30)) \<le> ln (real (unat y + 30))"
    by (rule ln_nat_mono)
  then have "\<lfloor>ln (real (unat x + 30)) * 7 - 45/2\<rfloor> \<le> \<lfloor>ln (real (unat y + 30)) * 7 - 45/2\<rfloor>"
    by (intro floor_mono) simp
  then show ?thesis
    by (simp add: scalledValue_floor(1) [OF x] scalledValue_floor(1) [OF assms(2)])
qed

lemma scalledValue_0: "scalledValue 0 = 1"
proof -
  have "scalledValue 0 = \<lfloor>ln (30::real) * 7 - 45/2\<rfloor>"
    using scalledValue_floor(1) [of 0] by simp
  also have "\<dots> = 1"
    using ln_30_lower ln_30_upper by (simp add: floor_eq_iff)
  finally show ?thesis .
qed

lemma scalledValue_2000: "scalledValue 2000 = 30"
proof -
  have "scalledValue 2000 = \<lfloor>ln (2030::real) * 7 - 45/2\<rfloor>"
    using scalledValue_floor(1) [of 2000] by simp
  also have "\<dots> = 30"
    using ln_2030_lower ln_2030_upper by (simp add: floor_eq_iff)
  finally show ?thesis .
qed

lemma currentMilliAmpsToDisplayY_clipped:
  "currentMilliAmpsToDisplayY x = word_of_int (63 - scalledValue (if x > 2000 then 2000 else x))"
  by (simp add: currentMilliAmpsToDisplayY_def)

lemma unat_currentMilliAmpsToDisplayY:
  "int (unat (currentMilliAmpsToDisplayY x)) = 63 - scalledValue (if x > 2000 then 2000 else x)"
proof -
  define c where "c = (if x > 2000 then 2000 else x)"
  have c: "c \<le> 2000" by (simp add: c_def not_less)
  have "uint (word_of_int (63 - scalledValue c) :: uint8) = (63 - scalledValue c) mod 2 ^ LENGTH(8)"
    by (rule uint_word_of_int)
  also have "\<dots> = 63 - scalledValue c"
    using scalledValue_floor(2,3) [OF c] by simp
  finally have "uint (currentMilliAmpsToDisplayY x) = 63 - scalledValue c"
    unfolding currentMilliAmpsToDisplayY_clipped c_def .
  then show ?thesis
    unfolding c_def by simp
qed

lemma currentMilliAmpsToDisplayY_0: "currentMilliAmpsToDisplayY 0 = 62"
  by (simp add: currentMilliAmpsToDisplayY_def scalledValue_0)

lemma currentMilliAmpsToDisplayY_2000: "currentMilliAmpsToDisplayY 2000 = 33"
  by (simp add: currentMilliAmpsToDisplayY_def scalledValue_2000)

lemma currentMilliAmpsToDisplayY_above:
  "2000 < v \<Longrightarrow> currentMilliAmpsToDisplayY v = currentMilliAmpsToDisplayY 2000"
  by (simp add: currentMilliAmpsToDisplayY_def)

text \<open>
  Claim C4. The mapping \<open>currentMilliAmpsToDisplayY\<close> is monotonically non-increasing over
  the inputs in [0, 2000]: a larger current never yields a larger y coordinate. It is
  constant above 2000: every input greater than 2000 yields the output of 2000.
\<close>

theorem currentMilliAmpsToDisplayY_antimono_and_clamped:
  "(a \<le> b \<longrightarrow> b \<le> 2000 \<longrightarrow> currentMilliAmpsToDisplayY b \<le> currentMilliAmpsToDisplayY a)
   \<and> (2000 < v \<longrightarrow> currentMilliAmpsToDisplayY v = currentMilliAmpsToDisplayY 2000)"
proof (intro conjI impI)
  assume ab: "a \<le> b" and b: "b \<le> 2000"
  then have a: "a \<le> 2000" by simp
  from a b have "\<not> 2000 < a" and "\<not> 2000 < b" by (simp_all add: not_less)
  then have "int (unat (currentMilliAmpsToDisplayY a)) = 63 - scalledValue a"
    and "int (unat (currentMilliAmpsToDisplayY b)) = 63 - scalledValue b"
    using unat_currentMilliAmpsToDisplayY [of a] unat_currentMilliAmpsToDisplayY [of b]
    by simp_all
  moreover have "scalledValue a \<le> scalledValue b"
    using ab b by (rule scalledValue_mono)
  ultimately have "unat (currentMilliAmpsToDisplayY b) \<le> unat (currentMilliAmpsToDisplayY a)"
    by linarith
  then show "currentMilliAmpsToDisplayY b \<le> currentMilliAmpsToDisplayY a"
    by (simp add: word_le_nat_alt)
next
  assume "2000 < v"
  then show "currentMilliAmpsToDisplayY v = currentMilliAmpsToDisplayY 2000"
    by (rule currentMilliAmpsToDisplayY_above)
qed

theorem currentMilliAmpsToDisplayY_antimono_and_clamped_witness:
  "(100::uint16) \<le> 200 \<and> (200::uint16) \<le> 2000
   \<and> currentMilliAmpsToDisplayY 200 \<le> currentMilliAmpsToDisplayY 100
   \<and> (2000::uint16) < 3000
   \<and> currentMilliAmpsToDisplayY 3000 = currentMilliAmpsToDisplayY 2000"
  using currentMilliAmpsToDisplayY_antimono_and_clamped [of 100 200 3000] by simp

text \<open>
  Claim C5. Input 0 should map to the bottom pixel row of the plot band, 63, and input
  2000 to its top pixel row, 32, as the comments of the function say ("Maps [0..2000] to
  [0..31]", "to [63..32]"); input 5000 maps to the output of input 2000. On the code the
  third part holds and the first two do not: \<open>0.5 + 7 * ln 30 - 23\<close> lies strictly between
  1 and 2 and \<open>0.5 + 7 * ln 2030 - 23\<close> strictly between 30 and 31, so the scaled values
  are 1 and 30 and the function returns 62 for input 0 and 33 for input 2000.
\<close>

theorem currentMilliAmpsToDisplayY_endpoints:
  "currentMilliAmpsToDisplayY 0 = 62 \<and> currentMilliAmpsToDisplayY 0 \<noteq> 63
   \<and> currentMilliAmpsToDisplayY 2000 = 33 \<and> currentMilliAmpsToDisplayY 2000 \<noteq> 32
   \<and> currentMilliAmpsToDisplayY 5000 = currentMilliAmpsToDisplayY 2000"
  by (simp add: currentMilliAmpsToDisplayY_0 currentMilliAmpsToDisplayY_2000
      currentMilliAmpsToDisplayY_above)

text \<open>
  Claim C6. For every input, the output of \<open>currentMilliAmpsToDisplayY\<close> lies within the
  plot's pixel band, the rows 32 to 63 of the display.
\<close>

theorem currentMilliAmpsToDisplayY_in_band:
  "32 \<le> currentMilliAmpsToDisplayY v \<and> currentMilliAmpsToDisplayY v \<le> 63"
proof -
  define c where "c = (if v > 2000 then 2000 else v)"
  have c: "c \<le> 2000" by (simp add: c_def not_less)
  have "int (unat (currentMilliAmpsToDisplayY v)) = 63 - scalledValue c"
    unfolding c_def by (rule unat_currentMilliAmpsToDisplayY)
  with scalledValue_floor(2,3) [OF c]
  have "32 \<le> unat (currentMilliAmpsToDisplayY v)" and "unat (currentMilliAmpsToDisplayY v) \<le> 63"
    by linarith+
  then show ?thesis by (simp add: word_le_nat_alt)
qed

subsection \<open>Index arithmetic on \<open>uint8\<close>\<close>

lemma mod_64_cases:
  fixes x :: nat
  assumes "x < 128"
  shows "x mod 64 = (if x < 64 then x else x - 64)"
proof (cases "x < 64")
  case True
  then show ?thesis by simp
next
  case False
  then have "x mod 64 = (x - 64) mod 64" by (simp add: le_mod_geq)
  with False assms show ?thesis by simp
qed

lemma ring_index_inj:
  fixes f i n :: nat
  assumes "(f + i) mod 64 = (f + n) mod 64" and "i < 64" and "n < 64"
  shows "i = n"
proof -
  define a where "a = f mod 64"
  have a: "a < 64" by (simp add: a_def)
  have "(f + i) mod 64 = (a + i) mod 64" "(f + n) mod 64 = (a + n) mod 64"
    by (simp_all add: a_def mod_add_left_eq)
  with assms(1) have "(a + i) mod 64 = (a + n) mod 64" by simp
  moreover have "(a + i) mod 64 = (if a + i < 64 then a + i else a + i - 64)"
    using a assms(2) by (intro mod_64_cases) simp
  moreover have "(a + n) mod 64 = (if a + n < 64 then a + n else a + n - 64)"
    using a assms(3) by (intro mod_64_cases) simp
  ultimately have "(if a + i < 64 then a + i else a + i - 64)
      = (if a + n < 64 then a + n else a + n - 64)" by simp
  with a assms(2,3) show ?thesis
    by (simp split: if_splits)
qed

lemma ring_next_neq:
  fixes f i :: nat
  assumes "f < 64" and "i < 63"
  shows "(f + Suc i) mod 64 \<noteq> f"
proof
  assume "(f + Suc i) mod 64 = f"
  with assms(1) have "(f + Suc i) mod 64 = (f + 0) mod 64" by simp
  then have "Suc i = 0"
    using assms(2) by (intro ring_index_inj [of f "Suc i" 0]) simp_all
  then show False by simp
qed


lemma unat_incrementGraphIndex:
  assumes "index < 64"
  shows "unat (incrementGraphIndex index) = (unat index + 1) mod 64"
proof -
  from assms have lt: "unat index < 64" by (simp add: word_less_nat_alt)
  then have u: "unat (index + 1) = unat index + 1"
    by (simp add: unat_word_ariths)
  show ?thesis
  proof (cases "unat index = 63")
    case True
    with u have "(64::uint8) \<le> index + 1" by (simp add: word_le_nat_alt)
    with True show ?thesis
      by (simp add: incrementGraphIndex_def kGraphMaxPoints_def Let_def)
  next
    case False
    with lt have "unat index + 1 < 64" by simp
    with u have "\<not> (64::uint8) \<le> index + 1" by (simp add: word_le_nat_alt)
    with u \<open>unat index + 1 < 64\<close> show ?thesis
      by (simp add: incrementGraphIndex_def kGraphMaxPoints_def Let_def)
  qed
qed

lemma unat_insertion_index:
  fixes f c :: uint8
  assumes "f < 64" and "c < 64"
  shows "unat (if f + c \<ge> kGraphMaxPoints then f + c - kGraphMaxPoints else f + c)
           = (unat f + unat c) mod 64"
proof -
  from assms have lt: "unat f < 64" "unat c < 64" by (simp_all add: word_less_nat_alt)
  then have u: "unat (f + c) = unat f + unat c"
    by (simp add: unat_word_ariths)
  show ?thesis
  proof (cases "64 \<le> unat f + unat c")
    case True
    with u have le: "(64::uint8) \<le> f + c" by (simp add: word_le_nat_alt)
    then have "unat (f + c - 64) = unat (f + c) - unat (64::uint8)"
      by (rule unat_sub)
    with u have "unat (f + c - 64) = unat f + unat c - 64" by simp
    moreover from True lt have "(unat f + unat c) mod 64 = unat f + unat c - 64"
      using mod_64_cases [of "unat f + unat c"] by simp
    ultimately show ?thesis using le by (simp add: kGraphMaxPoints_def)
  next
    case False
    with u have "\<not> (64::uint8) \<le> f + c" by (simp add: word_le_nat_alt)
    with False u show ?thesis by (simp add: kGraphMaxPoints_def)
  qed
qed

lemma unat_count_Suc:
  fixes c :: uint8
  assumes "c \<le> 64" and "c \<noteq> 64"
  shows "unat (c + 1) = unat c + 1" and "c < 64" and "c + 1 \<le> 64"
proof -
  from assms(1) have "unat c \<le> 64" by (simp add: word_le_nat_alt)
  moreover have "unat c \<noteq> 64"
  proof
    assume "unat c = 64"
    moreover have "c = of_nat (unat c)" by simp
    ultimately have "c = of_nat 64" by simp
    with assms(2) show False by simp
  qed
  ultimately have lt: "unat c < 64" by simp
  then show u: "unat (c + 1) = unat c + 1" by (simp add: unat_word_ariths)
  from lt show "c < 64" by (simp add: word_less_nat_alt)
  from lt u show "c + 1 \<le> 64" by (simp add: word_le_nat_alt)
qed

subsection \<open>The ring as a list\<close>



lemma ring_append_not_full:
  fixes pts :: "'a list"
  assumes "length pts = 64" and "n < 64"
  shows "map (\<lambda>i. pts[(f + n) mod 64 := y] ! ((f + i) mod 64)) [0..<Suc n]
           = map (\<lambda>i. pts ! ((f + i) mod 64)) [0..<n] @ [y]"
proof -
  have "pts[(f + n) mod 64 := y] ! ((f + i) mod 64) = pts ! ((f + i) mod 64)"
    if "i < n" for i
  proof -
    from that assms(2) have "(f + i) mod 64 \<noteq> (f + n) mod 64"
      using ring_index_inj [of f i n] by auto
    then show ?thesis by simp
  qed
  moreover have "pts[(f + n) mod 64 := y] ! ((f + n) mod 64) = y"
    using assms(1) by simp
  ultimately show ?thesis by simp
qed

lemma ring_append_full:
  fixes pts :: "'a list"
  assumes "length pts = 64" and "f < 64"
  shows "map (\<lambda>i. pts[f := y] ! (((f + 1) mod 64 + i) mod 64)) [0..<64]
           = tl (map (\<lambda>i. pts ! ((f + i) mod 64)) [0..<64]) @ [y]"
    (is "?L = ?R")
proof (rule nth_equalityI)
  show "length ?L = length ?R" by simp
next
  fix i
  assume "i < length ?L"
  then have i: "i < 64" by simp
  then have L: "?L ! i = pts[f := y] ! ((f + Suc i) mod 64)"
    by (simp add: mod_add_left_eq)
  show "?L ! i = ?R ! i"
  proof (cases "i = 63")
    case True
    with assms(2) have e: "(f + Suc i) mod 64 = f" by simp
    have "pts[f := y] ! f = y" using assms by simp
    then have "pts[f := y] ! ((f + Suc i) mod 64) = y" unfolding e .
    moreover from True have "?R ! i = y" by (simp add: nth_append)
    ultimately show ?thesis unfolding L by simp
  next
    case False
    with i have i': "i < 63" by simp
    with assms(2) have "(f + Suc i) mod 64 \<noteq> f" by (intro ring_next_neq)
    then have "pts[f := y] ! ((f + Suc i) mod 64) = pts ! ((f + Suc i) mod 64)"
      by simp
    moreover from i' have "?R ! i = pts ! ((f + Suc i) mod 64)"
      by (simp add: nth_append nth_tl)
    ultimately show ?thesis unfolding L by simp
  qed
qed

subsection \<open>Appending to the graph buffer\<close>

lemma appendGraphPoint_full:
  assumes "graph_buffer_inv s" and "graph_active_y_count s = 64"
  shows "appendGraphPoint c s =
           Some (s\<lparr>graph_y_points :=
                      (graph_y_points s)[unat (graph_first_y_index s) :=
                         currentMilliAmpsToDisplayY c],
                    graph_first_y_index := incrementGraphIndex (graph_first_y_index s)\<rparr>)"
proof -
  from assms(1) have "unat (graph_first_y_index s) < length (graph_y_points s)"
    by (simp add: graph_buffer_inv_def word_less_nat_alt)
  with assms(2) show ?thesis
    by (simp add: appendGraphPoint_def array_write_def kGraphMaxPoints_def)
qed

lemma appendGraphPoint_not_full:
  assumes "graph_buffer_inv s" and "graph_active_y_count s \<noteq> 64"
  shows "appendGraphPoint c s =
           Some (s\<lparr>graph_y_points :=
                      (graph_y_points s)
                        [(unat (graph_first_y_index s) + unat (graph_active_y_count s)) mod 64 :=
                           currentMilliAmpsToDisplayY c],
                    graph_active_y_count := graph_active_y_count s + 1\<rparr>)"
proof -
  define ins where "ins =
    (if graph_first_y_index s + graph_active_y_count s \<ge> kGraphMaxPoints
     then graph_first_y_index s + graph_active_y_count s - kGraphMaxPoints
     else graph_first_y_index s + graph_active_y_count s)"
  from assms have f: "graph_first_y_index s < 64" and c: "graph_active_y_count s < 64"
    and len: "length (graph_y_points s) = 64"
    using unat_count_Suc(2) [of "graph_active_y_count s"]
    by (simp_all add: graph_buffer_inv_def)
  have ins: "unat ins = (unat (graph_first_y_index s) + unat (graph_active_y_count s)) mod 64"
    unfolding ins_def using f c by (rule unat_insertion_index)
  then have "unat ins < length (graph_y_points s)"
    by (simp add: len)
  then have "array_write (graph_y_points s) ins (currentMilliAmpsToDisplayY c)
      = Some ((graph_y_points s)[unat ins := currentMilliAmpsToDisplayY c])"
    by (simp add: array_write_def)
  with assms(2) show ?thesis
    unfolding appendGraphPoint_def Let_def ins_def [symmetric]
    by (simp add: kGraphMaxPoints_def ins)
qed

lemma appendGraphPoint_step:
  assumes "graph_buffer_inv s"
  shows "\<exists>s'. appendGraphPoint c s = Some s' \<and> graph_buffer_inv s'
      \<and> unat (graph_active_y_count s') = min 64 (Suc (unat (graph_active_y_count s)))
      \<and> graphBufferEntries s' =
          (if graph_active_y_count s = 64 then tl (graphBufferEntries s)
           else graphBufferEntries s) @ [currentMilliAmpsToDisplayY c]"
proof (cases "graph_active_y_count s = 64")
  case True
  from assms have f: "graph_first_y_index s < 64" and len: "length (graph_y_points s) = 64"
    by (simp_all add: graph_buffer_inv_def)
  then have uf: "unat (graph_first_y_index s) < 64" by (simp add: word_less_nat_alt)
  have inc: "unat (incrementGraphIndex (graph_first_y_index s))
      = (unat (graph_first_y_index s) + 1) mod 64"
    using f by (rule unat_incrementGraphIndex)
  then have "unat (incrementGraphIndex (graph_first_y_index s)) < 64" by simp
  then have inc_lt: "incrementGraphIndex (graph_first_y_index s) < 64"
    by (simp add: word_less_nat_alt)
  let ?s' = "s\<lparr>graph_y_points :=
                      (graph_y_points s)[unat (graph_first_y_index s) :=
                         currentMilliAmpsToDisplayY c],
                    graph_first_y_index := incrementGraphIndex (graph_first_y_index s)\<rparr>"
  have "appendGraphPoint c s = Some ?s'"
    using assms True by (rule appendGraphPoint_full)
  moreover have "graph_buffer_inv ?s'"
    using assms inc_lt by (simp add: graph_buffer_inv_def)
  moreover have "unat (graph_active_y_count ?s') = min 64 (Suc (unat (graph_active_y_count s)))"
    using True by simp
  moreover have "graphBufferEntries ?s' = tl (graphBufferEntries s) @ [currentMilliAmpsToDisplayY c]"
    using ring_append_full [OF len uf, of "currentMilliAmpsToDisplayY c"] True
    by (simp add: graphBufferEntries_def inc)
  ultimately show ?thesis using True by simp
next
  case False
  from assms have len: "length (graph_y_points s) = 64"
    by (simp add: graph_buffer_inv_def)
  from assms False have u: "unat (graph_active_y_count s + 1) = unat (graph_active_y_count s) + 1"
    and c: "graph_active_y_count s < 64" and c1: "graph_active_y_count s + 1 \<le> 64"
    using unat_count_Suc [of "graph_active_y_count s"]
    by (simp_all add: graph_buffer_inv_def)
  from c have uc: "unat (graph_active_y_count s) < 64" by (simp add: word_less_nat_alt)
  let ?s' = "s\<lparr>graph_y_points :=
                      (graph_y_points s)
                        [(unat (graph_first_y_index s) + unat (graph_active_y_count s)) mod 64 :=
                           currentMilliAmpsToDisplayY c],
                    graph_active_y_count := graph_active_y_count s + 1\<rparr>"
  have "appendGraphPoint c s = Some ?s'"
    using assms False by (rule appendGraphPoint_not_full)
  moreover have "graph_buffer_inv ?s'"
    using assms c1 by (simp add: graph_buffer_inv_def)
  moreover have "unat (graph_active_y_count ?s') = min 64 (Suc (unat (graph_active_y_count s)))"
    using u uc by simp
  moreover have "graphBufferEntries ?s' = graphBufferEntries s @ [currentMilliAmpsToDisplayY c]"
    using ring_append_not_full [OF len uc, of "unat (graph_first_y_index s)"
        "currentMilliAmpsToDisplayY c"]
    by (simp add: graphBufferEntries_def u)
  ultimately show ?thesis using False by simp
qed

lemma appendGraphPoints_snoc:
  "appendGraphPoints (cs @ [c]) s =
     (case appendGraphPoints cs s of None \<Rightarrow> None | Some s1 \<Rightarrow> appendGraphPoint c s1)"
  by (induction cs arbitrary: s) (simp_all split: option.splits)

lemma last_window_snoc:
  "drop (length (cs @ [c]) - 64) (cs @ [c]) =
     (if 64 \<le> length cs then tl (drop (length cs - 64) cs) else drop (length cs - 64) cs) @ [c]"
proof (cases "64 \<le> length cs")
  case True
  then have "length (cs @ [c]) - 64 = Suc (length cs - 64)" by simp
  then have "drop (length (cs @ [c]) - 64) (cs @ [c]) = drop (Suc (length cs - 64)) cs @ [c]"
    using True by simp
  with True show ?thesis by (simp add: drop_Suc tl_drop)
next
  case False
  then show ?thesis by simp
qed

lemma appendGraphPoints_from_clear:
  assumes "length (graph_y_points s) = 64"
  shows "\<exists>s'. appendGraphPoints cs (clearGraphBuffer s) = Some s' \<and> graph_buffer_inv s'
      \<and> unat (graph_active_y_count s') = min 64 (length cs)
      \<and> graphBufferEntries s' = map currentMilliAmpsToDisplayY (drop (length cs - 64) cs)"
proof (induction cs rule: rev_induct)
  case Nil
  from assms show ?case
    by (simp add: clearGraphBuffer_def graph_buffer_inv_def graphBufferEntries_def)
next
  case (snoc c cs)
  then obtain s1 where s1: "appendGraphPoints cs (clearGraphBuffer s) = Some s1"
    and inv1: "graph_buffer_inv s1"
    and cnt1: "unat (graph_active_y_count s1) = min 64 (length cs)"
    and ent1: "graphBufferEntries s1 = map currentMilliAmpsToDisplayY (drop (length cs - 64) cs)"
    by blast
  from appendGraphPoint_step [OF inv1, of c]
  obtain s2 where s2: "appendGraphPoint c s1 = Some s2" and inv2: "graph_buffer_inv s2"
    and cnt2: "unat (graph_active_y_count s2) = min 64 (Suc (unat (graph_active_y_count s1)))"
    and ent2: "graphBufferEntries s2 =
          (if graph_active_y_count s1 = 64 then tl (graphBufferEntries s1)
           else graphBufferEntries s1) @ [currentMilliAmpsToDisplayY c]"
    by blast
  have full: "graph_active_y_count s1 = 64 \<longleftrightarrow> 64 \<le> length cs"
  proof
    assume "graph_active_y_count s1 = 64"
    then have "unat (graph_active_y_count s1) = 64" by simp
    with cnt1 show "64 \<le> length cs" by simp
  next
    assume "64 \<le> length cs"
    with cnt1 have "unat (graph_active_y_count s1) = 64" by simp
    moreover have "graph_active_y_count s1 = of_nat (unat (graph_active_y_count s1))" by simp
    ultimately have "graph_active_y_count s1 = of_nat 64" by simp
    then show "graph_active_y_count s1 = 64" by simp
  qed
  have "appendGraphPoints (cs @ [c]) (clearGraphBuffer s) = Some s2"
    by (simp add: appendGraphPoints_snoc s1 s2)
  moreover have "unat (graph_active_y_count s2) = min 64 (length (cs @ [c]))"
    using cnt1 cnt2 by simp
  moreover have "graphBufferEntries s2
      = map currentMilliAmpsToDisplayY (drop (length (cs @ [c]) - 64) (cs @ [c]))"
    unfolding last_window_snoc ent2 ent1 full
    by (simp add: map_tl)
  ultimately show ?case using inv2 by blast
qed

subsection \<open>Drawing the graph\<close>

lemma graph_index_in_bounds:
  fixes index :: uint8
  shows "unat (if index + 1 \<ge> kGraphMaxPoints then 0 else index + 1) < 64"
  by (simp add: kGraphMaxPoints_def word_le_nat_alt not_le)

lemma drawGraphPage_loop_in_bounds:
  assumes "length pts = 64"
  shows "\<exists>last_x' s'. drawGraphPage_loop pts cnt i index last_x last_y s = Some (last_x', s')"
  using assms
proof (induction pts cnt i index last_x last_y s rule: drawGraphPage_loop.induct)
  case (1 pts cnt i index last_x last_y s)
  define index1 where "index1 = (if index + 1 \<ge> kGraphMaxPoints then 0 else index + 1)"
  have "unat index1 < length pts"
    unfolding index1_def using graph_index_in_bounds [of index] "1.prems" by simp
  then have rd: "array_read pts index1 = Some (pts ! unat index1)"
    by (simp add: array_read_def)
  show ?case
  proof (cases "i < cnt")
    case True
    from "1.IH" [OF True index1_def rd refl "1.prems"]
    obtain last_x' s' where
      "drawGraphPage_loop pts cnt (i + 1) index1 (last_x + 2) (pts ! unat index1)
         (u8g_do (drawLine last_x last_y (last_x + 2) (pts ! unat index1)) s) = Some (last_x', s')"
      by blast
    with True rd show ?thesis
      by (subst drawGraphPage_loop.simps) (simp add: index1_def [symmetric] Let_def)
  next
    case False
    then show ?thesis
      by (subst drawGraphPage_loop.simps) simp
  qed
qed

lemma drawGraphPage_loop_none:
  assumes "cnt \<le> 1"
  shows "drawGraphPage_loop pts cnt 1 index last_x last_y s = Some (last_x, s)"
proof -
  from assms have "\<not> 1 < cnt" by (simp add: not_less)
  then show ?thesis
    by (subst drawGraphPage_loop.simps) simp
qed

lemma drawGraphPage_in_bounds:
  assumes "graph_buffer_inv s"
  shows "\<exists>s'. drawGraphPage drawing_stripe_index current average_current s = Some s'"
proof -
  define s2 where "s2 =
    (if drawing_stripe_index = 1 then
       u8g_do (drawStr 70 25 average_current)
         (u8g_do (drawStr 0 25 ''Average'')
           (u8g_do (setFont u8g_font_8x13)
             (if drawing_stripe_index = 0 then
                u8g_do (drawStr 70 10 current)
                  (u8g_do (drawStr 0 10 ''Current'')
                    (u8g_do (setFont u8g_font_8x13) s))
              else s)))
     else (if drawing_stripe_index = 0 then
             u8g_do (drawStr 70 10 current)
               (u8g_do (drawStr 0 10 ''Current'')
                 (u8g_do (setFont u8g_font_8x13) s))
           else s))"
  have pts: "graph_y_points s2 = graph_y_points s"
    and fst: "graph_first_y_index s2 = graph_first_y_index s"
    by (simp_all add: s2_def u8g_do_def)
  from assms have len: "length (graph_y_points s2) = 64"
    and "unat (graph_first_y_index s2) < 64"
    by (simp_all add: pts fst graph_buffer_inv_def word_less_nat_alt)
  then have rd: "array_read (graph_y_points s2) (graph_first_y_index s2)
      = Some (graph_y_points s2 ! unat (graph_first_y_index s2))"
    by (simp add: array_read_def)
  from drawGraphPage_loop_in_bounds [OF len]
  obtain last_x s3 where "drawGraphPage_loop (graph_y_points s2) (graph_active_y_count s2) 1
      (graph_first_y_index s2) 0 (graph_y_points s2 ! unat (graph_first_y_index s2)) s2
      = Some (last_x, s3)"
    by blast
  with rd show ?thesis
    unfolding drawGraphPage_def Let_def s2_def [symmetric]
    by simp
qed


text \<open>
  Claim C1. For every sequence of \<open>appendGraphPoint\<close> calls after \<open>clearGraphBuffer\<close>
  (on the 64-slot array), no call indexes outside the array, the buffer never holds more
  than 64 entries, and reading its entries from the oldest index for count steps, wrapping
  modulo 64, yields exactly the quantized values of the last min(64, number of calls)
  samples, oldest first.
\<close>

theorem graph_buffer_holds_last_samples:
  assumes "length (graph_y_points s) = 64"
  shows "\<exists>s'. appendGraphPoints samples (clearGraphBuffer s) = Some s'
      \<and> unat (graph_active_y_count s') \<le> 64
      \<and> unat (graph_active_y_count s') = min 64 (length samples)
      \<and> graphBufferEntries s' =
          map currentMilliAmpsToDisplayY
            (drop (length samples - min 64 (length samples)) samples)"
proof -
  from appendGraphPoints_from_clear [OF assms, of samples]
  obtain s' where "appendGraphPoints samples (clearGraphBuffer s) = Some s'"
    and "unat (graph_active_y_count s') = min 64 (length samples)"
    and "graphBufferEntries s' = map currentMilliAmpsToDisplayY (drop (length samples - 64) samples)"
    by blast
  moreover have "drop (length samples - min 64 (length samples)) samples
      = drop (length samples - 64) samples"
    by (simp add: min_def)
  ultimately show ?thesis by simp
qed

theorem graph_buffer_holds_last_samples_witness:
  "length (graph_y_points zero_state) = 64
   \<and> (\<exists>s'. appendGraphPoints (map of_nat [0..<70]) (clearGraphBuffer zero_state) = Some s'
      \<and> unat (graph_active_y_count s') \<le> 64
      \<and> unat (graph_active_y_count s') = 64
      \<and> graphBufferEntries s' =
          map currentMilliAmpsToDisplayY (drop 6 (map of_nat [0..<70])))"
proof -
  have len: "length (graph_y_points zero_state) = 64"
    by (simp add: zero_state_def)
  from graph_buffer_holds_last_samples [OF len, of "map of_nat [0..<70]"] len
  show ?thesis by simp
qed

text \<open>
  Claim C9. When the graph buffer holds 0 or 1 points, the segment loop of the graph
  drawing pass performs zero iterations: it draws no line between sample points, and the
  pass (stripe index 2 or more) issues only the closing vertical line, followed on stripe
  3 by the baseline rule.
\<close>

theorem drawGraphPage_no_segments:
  assumes "graph_active_y_count s \<le> 1"
  shows "drawGraphPage_loop (graph_y_points s) (graph_active_y_count s) 1
           (graph_first_y_index s) 0 last_y s = Some (0, s)
      \<and> (2 \<le> drawing_stripe_index \<longrightarrow>
           unat (graph_first_y_index s) < length (graph_y_points s) \<longrightarrow>
           drawGraphPage drawing_stripe_index current average_current s =
             Some (s\<lparr>u8g := u8g s @ drawLine 1 63 1 32 #
                       (if drawing_stripe_index = 3 then [drawLine 0 63 127 63] else [])\<rparr>))"
proof (intro conjI impI)
  show "drawGraphPage_loop (graph_y_points s) (graph_active_y_count s) 1
           (graph_first_y_index s) 0 last_y s = Some (0, s)"
    using assms by (rule drawGraphPage_loop_none)
next
  assume stripe: "2 \<le> drawing_stripe_index"
    and "unat (graph_first_y_index s) < length (graph_y_points s)"
  then have rd: "array_read (graph_y_points s) (graph_first_y_index s)
      = Some (graph_y_points s ! unat (graph_first_y_index s))"
    by (simp add: array_read_def)
  from stripe have ne: "drawing_stripe_index \<noteq> 0" "drawing_stripe_index \<noteq> 1"
    by (auto simp: word_le_nat_alt)
  show "drawGraphPage drawing_stripe_index current average_current s =
             Some (s\<lparr>u8g := u8g s @ drawLine 1 63 1 32 #
                       (if drawing_stripe_index = 3 then [drawLine 0 63 127 63] else [])\<rparr>)"
    using stripe ne rd drawGraphPage_loop_none [OF assms]
    by (simp add: drawGraphPage_def u8g_do_def)
qed

theorem drawGraphPage_no_segments_witness:
  "graph_active_y_count zero_state \<le> 1
   \<and> (2::uint8) \<le> 3
   \<and> unat (graph_first_y_index zero_state) < length (graph_y_points zero_state)
   \<and> drawGraphPage 3 ''   5 ma'' ''   7 ma'' zero_state =
        Some (zero_state\<lparr>u8g := [drawLine 1 63 1 32, drawLine 0 63 127 63]\<rparr>)"
proof -
  have c: "graph_active_y_count zero_state \<le> 1"
    by (simp add: zero_state_def)
  from drawGraphPage_no_segments [OF c, of 0 3 "''   5 ma''" "''   7 ma''"] c
  show ?thesis by (simp add: zero_state_def)
qed

text \<open>
  Claim C10. After \<open>setup\<close> or \<open>clearGraphBuffer\<close> (on the 64-slot array) the invariant
  holds: \<open>graph_first_y_index\<close> is strictly less than 64 and \<open>graph_active_y_count\<close> is
  at most 64. Every \<open>appendGraphPoint\<close> call preserves it. Under it, every array index used
  by \<open>appendGraphPoint\<close> and by \<open>drawGraphPage\<close> lies within the array (the operations do
  not return \<open>None\<close>), including the read of \<open>graph_y_points[graph_first_y_index]\<close>
  when the buffer is empty.
\<close>

theorem graph_buffer_indices_in_bounds:
  "(length (graph_y_points s) = 64 \<longrightarrow>
      graph_buffer_inv (clearGraphBuffer s) \<and> graph_buffer_inv (display_setup now K s))
   \<and> (graph_buffer_inv s \<longrightarrow>
        (\<exists>s'. appendGraphPoint c s = Some s' \<and> graph_buffer_inv s')
        \<and> (\<exists>s'. drawGraphPage drawing_stripe_index current average_current s = Some s')
        \<and> array_read (graph_y_points s) (graph_first_y_index s)
            = Some (graph_y_points s ! unat (graph_first_y_index s)))"
proof (intro conjI impI)
  assume "length (graph_y_points s) = 64"
  then show "graph_buffer_inv (clearGraphBuffer s)"
    and "graph_buffer_inv (display_setup now K s)"
    by (simp_all add: graph_buffer_inv_def clearGraphBuffer_def display_setup_def u8g_do_def)
next
  assume inv: "graph_buffer_inv s"
  from appendGraphPoint_step [OF inv, of c]
  show "\<exists>s'. appendGraphPoint c s = Some s' \<and> graph_buffer_inv s'"
    by blast
  from inv show "\<exists>s'. drawGraphPage drawing_stripe_index current average_current s = Some s'"
    by (rule drawGraphPage_in_bounds)
  from inv show "array_read (graph_y_points s) (graph_first_y_index s)
            = Some (graph_y_points s ! unat (graph_first_y_index s))"
    by (simp add: graph_buffer_inv_def array_read_def word_less_nat_alt)
qed

theorem graph_buffer_indices_in_bounds_witness:
  "length (graph_y_points zero_state) = 64
   \<and> graph_buffer_inv (clearGraphBuffer zero_state)
   \<and> graph_buffer_inv (display_setup 0 example_codes zero_state)
   \<and> graph_buffer_inv zero_state
   \<and> (\<exists>s'. appendGraphPoint 100 zero_state = Some s' \<and> graph_buffer_inv s')
   \<and> (\<exists>s'. drawGraphPage 2 ''   5 ma'' ''   7 ma'' zero_state = Some s')
   \<and> array_read (graph_y_points zero_state) (graph_first_y_index zero_state) = Some 0"
proof -
  have len: "length (graph_y_points zero_state) = 64"
    and inv: "graph_buffer_inv zero_state"
    by (simp_all add: zero_state_def graph_buffer_inv_def)
  have "graph_y_points zero_state ! unat (graph_first_y_index zero_state) = 0"
    by (simp add: zero_state_def)
  with graph_buffer_indices_in_bounds
    [of zero_state 0 example_codes 100 2 "''   5 ma''" "''   7 ma''"] len inv
  show ?thesis by simp
qed

subsection \<open>The message overlay\<close>

lemma drawCurrentDisplayMessage_calls:
  "\<exists>calls. drawCurrentDisplayMessage K s =
     s\<lparr>u8g := u8g s @ setFont u8g_font_8x13 # drawRFrame 0 0 128 64 5 # calls\<rparr>"
  by (auto simp add: drawCurrentDisplayMessage_def u8g_do_def Let_def)

lemma renderCurrentDisplayMessage_unfold:
  "renderCurrentDisplayMessage K s =
     u8g_do nextPage (drawCurrentDisplayMessage K
       (u8g_do nextPage (drawCurrentDisplayMessage K
         (u8g_do nextPage (drawCurrentDisplayMessage K
           (u8g_do nextPage (drawCurrentDisplayMessage K
             (u8g_do firstPage s))))))))"
  by (simp add: renderCurrentDisplayMessage_def kDrawingPasses_def numeral_3_eq_3)

lemma drawCurrentDisplayMessage_appends:
  "\<exists>calls. drawCurrentDisplayMessage K s = s\<lparr>u8g := u8g s @ calls\<rparr>"
  using drawCurrentDisplayMessage_calls [of K s] by blast

lemma renderCurrentDisplayMessage_calls:
  "\<exists>calls. renderCurrentDisplayMessage K s =
     s\<lparr>u8g := u8g s @ firstPage # setFont u8g_font_8x13 # drawRFrame 0 0 128 64 5 # calls\<rparr>"
proof -
  define s0 where "s0 = u8g_do firstPage s"
  obtain c1 where c1: "drawCurrentDisplayMessage K s0 =
      s0\<lparr>u8g := u8g s0 @ setFont u8g_font_8x13 # drawRFrame 0 0 128 64 5 # c1\<rparr>"
    using drawCurrentDisplayMessage_calls by blast
  define s1 where "s1 = u8g_do nextPage (drawCurrentDisplayMessage K s0)"
  obtain c2 where c2: "drawCurrentDisplayMessage K s1 = s1\<lparr>u8g := u8g s1 @ c2\<rparr>"
    using drawCurrentDisplayMessage_appends by blast
  define s2 where "s2 = u8g_do nextPage (drawCurrentDisplayMessage K s1)"
  obtain c3 where c3: "drawCurrentDisplayMessage K s2 = s2\<lparr>u8g := u8g s2 @ c3\<rparr>"
    using drawCurrentDisplayMessage_appends by blast
  define s3 where "s3 = u8g_do nextPage (drawCurrentDisplayMessage K s2)"
  obtain c4 where c4: "drawCurrentDisplayMessage K s3 = s3\<lparr>u8g := u8g s3 @ c4\<rparr>"
    using drawCurrentDisplayMessage_appends by blast
  have "renderCurrentDisplayMessage K s = u8g_do nextPage (drawCurrentDisplayMessage K s3)"
    by (simp add: renderCurrentDisplayMessage_unfold s3_def s2_def s1_def s0_def)
  also have "\<dots> = s\<lparr>u8g := u8g s @ firstPage # setFont u8g_font_8x13 #
      drawRFrame 0 0 128 64 5 # (c1 @ nextPage # c2 @ nextPage # c3 @ nextPage # c4 @ [nextPage])\<rparr>"
    unfolding c4 unfolding s3_def c3 unfolding s2_def c2 unfolding s1_def c1 unfolding s0_def
    by (simp add: u8g_do_def)
  finally show ?thesis by blast
qed

lemma isActiveDisplayMessage_active:
  assumes "current_display_message_code s \<noteq> kNone K"
    and "timeMillis now (time_in_current_display_message s)
           < ucast (current_display_message_min_time_millis s)"
  shows "isActiveDisplayMessage now K s = (True, s)"
  using assms by (simp add: isActiveDisplayMessage_def)

lemma isActiveDisplayMessage_expired:
  assumes "current_display_message_code s \<noteq> kNone K"
    and "\<not> timeMillis now (time_in_current_display_message s)
           < ucast (current_display_message_min_time_millis s)"
  shows "isActiveDisplayMessage now K s = (False, s\<lparr>current_display_message_code := kNone K\<rparr>)"
  using assms by (simp add: isActiveDisplayMessage_def)

lemma isActiveDisplayMessage_idle:
  assumes "current_display_message_code s = kNone K"
  shows "isActiveDisplayMessage now K s = (False, s)"
  using assms by (simp add: isActiveDisplayMessage_def)

lemma isActiveDisplayMessage_calls_append:
  "isActiveDisplayMessage_calls (xs @ ys) K s =
     (case isActiveDisplayMessage_calls xs K s of
        (bs, s1) \<Rightarrow>
          (case isActiveDisplayMessage_calls ys K s1 of (cs, s2) \<Rightarrow> (bs @ cs, s2)))"
  by (induction xs arbitrary: s) (simp_all split: prod.splits)

lemma isActiveDisplayMessage_calls_active:
  assumes "current_display_message_code s \<noteq> kNone K"
    and "\<forall>now \<in> set nows. timeMillis now (time_in_current_display_message s)
           < ucast (current_display_message_min_time_millis s)"
  shows "isActiveDisplayMessage_calls nows K s = (replicate (length nows) True, s)"
  using assms(2)
proof (induction nows)
  case Nil
  then show ?case by simp
next
  case (Cons now nows)
  then have "isActiveDisplayMessage now K s = (True, s)"
    using assms(1) by (intro isActiveDisplayMessage_active) simp_all
  with Cons show ?case by simp
qed

lemma isActiveDisplayMessage_calls_idle:
  assumes "current_display_message_code s = kNone K"
  shows "isActiveDisplayMessage_calls nows K s = (replicate (length nows) False, s)"
  by (induction nows) (simp_all add: isActiveDisplayMessage_idle [OF assms])

lemma activateDisplayMessage_fields:
  "current_display_message_code (activateDisplayMessage t0 K code d s) = code"
  "current_display_message_min_time_millis (activateDisplayMessage t0 K code d s) = d"
  "time_in_current_display_message (activateDisplayMessage t0 K code d s)
     = restart t0 (time_in_current_display_message s)"
proof -
  define s1 where "s1 = s\<lparr>current_display_message_code := code,
                 current_display_message_min_time_millis := d,
                 time_in_current_display_message :=
                   restart t0 (time_in_current_display_message s)\<rparr>"
  obtain calls where r: "renderCurrentDisplayMessage K s1 = s1\<lparr>u8g := u8g s1 @ calls\<rparr>"
    using renderCurrentDisplayMessage_calls [of K s1] by blast
  have a: "activateDisplayMessage t0 K code d s =
      (if code = kNone K \<or> code = current_display_message_code s then s1
       else s1\<lparr>u8g := u8g s1 @ calls\<rparr>)"
    by (simp add: activateDisplayMessage_def Let_def s1_def [symmetric] r)
  show "current_display_message_code (activateDisplayMessage t0 K code d s) = code"
    "current_display_message_min_time_millis (activateDisplayMessage t0 K code d s) = d"
    "time_in_current_display_message (activateDisplayMessage t0 K code d s)
     = restart t0 (time_in_current_display_message s)"
    unfolding a by (simp_all add: s1_def)
qed


lemma activateDisplayMessage_unfold:
  "activateDisplayMessage now K code d s =
     (if code = kNone K \<or> code = current_display_message_code s
      then s\<lparr>current_display_message_code := code,
             current_display_message_min_time_millis := d,
             time_in_current_display_message :=
               restart now (time_in_current_display_message s)\<rparr>
      else renderCurrentDisplayMessage K
             (s\<lparr>current_display_message_code := code,
                current_display_message_min_time_millis := d,
                time_in_current_display_message :=
                  restart now (time_in_current_display_message s)\<rparr>))"
  by (simp add: activateDisplayMessage_def Let_def)


text \<open>
  Claim C2. After \<open>activateDisplayMessage(code, d)\<close> with a code other than NONE, the
  elapsed time read by \<open>isActiveDisplayMessage\<close> is the clock reading minus the reading at
  activation. Every call made while the elapsed time is strictly less than \<open>d\<close> returns
  true (and leaves the state as it is); the first call with an elapsed time of \<open>d\<close> or
  more returns false and resets the message code to NONE; every call after it returns
  false. When the code is already NONE, the call returns false.
\<close>

theorem isActiveDisplayMessage_after_activation:
  assumes "code \<noteq> kNone K"
    and "s1 = activateDisplayMessage t0 K code d s"
    and "\<forall>now \<in> set early. timeMillis now (time_in_current_display_message s1) < ucast d"
    and "\<not> timeMillis late (time_in_current_display_message s1) < ucast d"
  shows "timeMillis now (time_in_current_display_message s1) = now - t0
    \<and> isActiveDisplayMessage_calls early K s1 = (replicate (length early) True, s1)
    \<and> isActiveDisplayMessage late K s1
        = (False, s1\<lparr>current_display_message_code := kNone K\<rparr>)
    \<and> isActiveDisplayMessage_calls (early @ late # later) K s1
        = (replicate (length early) True @ False # replicate (length later) False,
           s1\<lparr>current_display_message_code := kNone K\<rparr>)
    \<and> (current_display_message_code s0 = kNone K \<longrightarrow>
          isActiveDisplayMessage now K s0 = (False, s0))"
proof -
  have code1: "current_display_message_code s1 \<noteq> kNone K"
    and min1: "current_display_message_min_time_millis s1 = d"
    and timer1: "time_in_current_display_message s1
      = restart t0 (time_in_current_display_message s)"
    using assms(1) unfolding assms(2) by (simp_all add: activateDisplayMessage_fields)
  have elapsed: "timeMillis now (time_in_current_display_message s1) = now - t0"
    by (simp add: timer1 timeMillis_def restart_def)
  from assms(3) have "\<forall>now \<in> set early. timeMillis now (time_in_current_display_message s1)
      < ucast (current_display_message_min_time_millis s1)"
    by (simp add: min1)
  with code1
  have early: "isActiveDisplayMessage_calls early K s1 = (replicate (length early) True, s1)"
    by (rule isActiveDisplayMessage_calls_active)
  have late: "isActiveDisplayMessage late K s1
      = (False, s1\<lparr>current_display_message_code := kNone K\<rparr>)"
    using code1 assms(4) by (intro isActiveDisplayMessage_expired) (simp_all add: min1)
  have later: "isActiveDisplayMessage_calls later K
      (s1\<lparr>current_display_message_code := kNone K\<rparr>)
      = (replicate (length later) False, s1\<lparr>current_display_message_code := kNone K\<rparr>)"
    by (intro isActiveDisplayMessage_calls_idle) simp
  have all: "isActiveDisplayMessage_calls (early @ late # later) K s1
        = (replicate (length early) True @ False # replicate (length later) False,
           s1\<lparr>current_display_message_code := kNone K\<rparr>)"
    by (simp add: isActiveDisplayMessage_calls_append early late later)
  have idle: "current_display_message_code s0 = kNone K \<longrightarrow>
          isActiveDisplayMessage now K s0 = (False, s0)"
    by (simp add: isActiveDisplayMessage_idle)
  from elapsed early late all idle show ?thesis by blast
qed

theorem isActiveDisplayMessage_after_activation_witness:
  "kSplashScreen example_codes \<noteq> kNone example_codes
   \<and> timeMillis 5000 (time_in_current_display_message
          (activateDisplayMessage 5000 example_codes (kSplashScreen example_codes) 1000
             zero_state)) < ucast (1000 :: uint16)
   \<and> timeMillis 5999 (time_in_current_display_message
          (activateDisplayMessage 5000 example_codes (kSplashScreen example_codes) 1000
             zero_state)) < ucast (1000 :: uint16)
   \<and> \<not> timeMillis 6000 (time_in_current_display_message
          (activateDisplayMessage 5000 example_codes (kSplashScreen example_codes) 1000
             zero_state)) < ucast (1000 :: uint16)
   \<and> fst (isActiveDisplayMessage_calls ([5000, 5999] @ 6000 # [7000, 5500]) example_codes
          (activateDisplayMessage 5000 example_codes (kSplashScreen example_codes) 1000
             zero_state))
        = [True, True, False, False, False]"
proof -
  define s1 where "s1 = activateDisplayMessage 5000 example_codes
    (kSplashScreen example_codes) 1000 zero_state"
  have timer: "time_in_current_display_message s1 = \<lparr>start_time_millis = 5000\<rparr>"
    by (simp add: s1_def activateDisplayMessage_fields restart_def zero_state_def)
  have h1: "kSplashScreen example_codes \<noteq> kNone example_codes"
    by (simp add: example_codes_def)
  have h3: "\<forall>now \<in> set [5000, 5999].
      timeMillis now (time_in_current_display_message s1) < ucast (1000 :: uint16)"
    by (simp add: timer timeMillis_def)
  have h4: "\<not> timeMillis 6000 (time_in_current_display_message s1) < ucast (1000 :: uint16)"
    by (simp add: timer timeMillis_def)
  from isActiveDisplayMessage_after_activation [OF h1 s1_def h3 h4, of 0 "[7000, 5500]" zero_state]
  have "fst (isActiveDisplayMessage_calls ([5000, 5999] @ 6000 # [7000, 5500]) example_codes s1)
        = [True, True, False, False, False]"
    by (simp add: numeral_2_eq_2)
  moreover from h3
  have "timeMillis 5000 (time_in_current_display_message s1) < ucast (1000 :: uint16)"
    and "timeMillis 5999 (time_in_current_display_message s1) < ucast (1000 :: uint16)"
    by simp_all
  ultimately show ?thesis using h1 h4 unfolding s1_def by blast
qed

lemma drawCurrentDisplayMessage_exact:
  "drawCurrentDisplayMessage K s =
     s\<lparr>u8g := u8g s @ setFont u8g_font_8x13 # drawRFrame 0 0 128 64 5 #
       (if current_display_message_code s = kSplashScreen K then
          [drawStr 22 19 ''Power Play'', drawStr 30 37 ''UNO OLED'',
           drawStr 27 54 ''Ver 0.100'']
        else if current_display_message_code s = kAnalysisReset K then
          [drawStr 27 26 ''Analysis'', drawStr 27 45 ''Restarted'']
        else
          [drawStr 0 30 ''Message: '',
           drawStr 65 30
             (snprintf 12 (printf_d 4 (uint (current_display_message_code s))))])\<rparr>"
  by (simp add: drawCurrentDisplayMessage_def u8g_do_def Let_def)

lemma renderCurrentDisplayMessage_exact:
  "renderCurrentDisplayMessage K s =
     s\<lparr>u8g := u8g s @ firstPage #
       concat (replicate 4
         (setFont u8g_font_8x13 # drawRFrame 0 0 128 64 5 #
          (if current_display_message_code s = kSplashScreen K then
             [drawStr 22 19 ''Power Play'', drawStr 30 37 ''UNO OLED'',
              drawStr 27 54 ''Ver 0.100'']
           else if current_display_message_code s = kAnalysisReset K then
             [drawStr 27 26 ''Analysis'', drawStr 27 45 ''Restarted'']
           else
             [drawStr 0 30 ''Message: '',
              drawStr 65 30
                (snprintf 12 (printf_d 4 (uint (current_display_message_code s))))])
          @ [nextPage]))\<rparr>"
proof -
  define msg where "msg =
    (if current_display_message_code s = kSplashScreen K then
       [drawStr 22 19 ''Power Play'', drawStr 30 37 ''UNO OLED'',
        drawStr 27 54 ''Ver 0.100'']
     else if current_display_message_code s = kAnalysisReset K then
       [drawStr 27 26 ''Analysis'', drawStr 27 45 ''Restarted'']
     else
       [drawStr 0 30 ''Message: '',
        drawStr 65 30
          (snprintf 12 (printf_d 4 (uint (current_display_message_code s))))])"
  have pass: "u8g_do nextPage (drawCurrentDisplayMessage K s') =
      s'\<lparr>u8g := u8g s' @ setFont u8g_font_8x13 # drawRFrame 0 0 128 64 5 # msg @ [nextPage]\<rparr>"
    if "current_display_message_code s' = current_display_message_code s" for s'
    unfolding drawCurrentDisplayMessage_exact msg_def that
    by (simp add: u8g_do_def)
  define s0 where "s0 = u8g_do firstPage s"
  define s1 where "s1 = u8g_do nextPage (drawCurrentDisplayMessage K s0)"
  define s2 where "s2 = u8g_do nextPage (drawCurrentDisplayMessage K s1)"
  define s3 where "s3 = u8g_do nextPage (drawCurrentDisplayMessage K s2)"
  define s4 where "s4 = u8g_do nextPage (drawCurrentDisplayMessage K s3)"
  let ?p = "setFont u8g_font_8x13 # drawRFrame 0 0 128 64 5 # msg @ [nextPage]"
  have e0: "s0 = s\<lparr>u8g := u8g s @ [firstPage]\<rparr>"
    by (simp add: s0_def u8g_do_def)
  have e1: "s1 = s\<lparr>u8g := u8g s @ firstPage # ?p\<rparr>"
    unfolding s1_def using pass [of s0] by (simp add: e0)
  have e2: "s2 = s\<lparr>u8g := u8g s @ firstPage # ?p @ ?p\<rparr>"
    unfolding s2_def using pass [of s1] by (simp add: e1)
  have e3: "s3 = s\<lparr>u8g := u8g s @ firstPage # ?p @ ?p @ ?p\<rparr>"
    unfolding s3_def using pass [of s2] by (simp add: e2)
  have e4: "s4 = s\<lparr>u8g := u8g s @ firstPage # ?p @ ?p @ ?p @ ?p\<rparr>"
    unfolding s4_def using pass [of s3] by (simp add: e3)
  have "renderCurrentDisplayMessage K s = s4"
    by (simp add: renderCurrentDisplayMessage_unfold s4_def s3_def s2_def s1_def s0_def)
  moreover have "concat (replicate 4 ?p) = ?p @ ?p @ ?p @ ?p"
    by (simp add: numeral_eq_Suc)
  ultimately show ?thesis
    unfolding msg_def [symmetric] e4 by simp
qed

text \<open>
  Claim C3. Whenever a display message is active (code other than NONE and elapsed time
  below its minimum duration), \<open>renderGraphPage\<close> and \<open>renderSummaryPage\<close> return at once
  and issue no call to the display: the state, with the sequence of display calls, is
  unchanged. \<open>renderCurrentDisplayMessage\<close>, by contrast, draws the overlay in every
  state, without looking at the timer or the minimum time: it issues \<open>firstPage\<close> and
  then, on each of the 4 passes, the font selection, the rounded frame, the text lines
  of the current message code and \<open>nextPage\<close>, and it changes nothing else.
\<close>

theorem render_pages_skip_while_message_active:
  "(current_display_message_code s \<noteq> kNone K \<longrightarrow>
      timeMillis now (time_in_current_display_message s)
        < ucast (current_display_message_min_time_millis s) \<longrightarrow>
      renderGraphPage now K current_milli_amps average_current_milli_amps s = Some s
      \<and> renderSummaryPage now K current_milli_amps average_current_milli_amps
            total_charge_mah time_seconds s = Some s)
   \<and> renderCurrentDisplayMessage K s =
       s\<lparr>u8g := u8g s @ firstPage #
         concat (replicate 4
           (setFont u8g_font_8x13 # drawRFrame 0 0 128 64 5 #
            (if current_display_message_code s = kSplashScreen K then
               [drawStr 22 19 ''Power Play'', drawStr 30 37 ''UNO OLED'',
                drawStr 27 54 ''Ver 0.100'']
             else if current_display_message_code s = kAnalysisReset K then
               [drawStr 27 26 ''Analysis'', drawStr 27 45 ''Restarted'']
             else
               [drawStr 0 30 ''Message: '',
                drawStr 65 30
                  (snprintf 12 (printf_d 4 (uint (current_display_message_code s))))])
            @ [nextPage]))\<rparr>"
proof (intro conjI impI)
  assume "current_display_message_code s \<noteq> kNone K"
    and "timeMillis now (time_in_current_display_message s)
        < ucast (current_display_message_min_time_millis s)"
  then have active: "isActiveDisplayMessage now K s = (True, s)"
    by (rule isActiveDisplayMessage_active)
  then show "renderGraphPage now K current_milli_amps average_current_milli_amps s = Some s"
    by (simp add: renderGraphPage_def)
  from active show "renderSummaryPage now K current_milli_amps average_current_milli_amps
            total_charge_mah time_seconds s = Some s"
    by (simp add: renderSummaryPage_def)
next
  show "renderCurrentDisplayMessage K s =
       s\<lparr>u8g := u8g s @ firstPage #
         concat (replicate 4
           (setFont u8g_font_8x13 # drawRFrame 0 0 128 64 5 #
            (if current_display_message_code s = kSplashScreen K then
               [drawStr 22 19 ''Power Play'', drawStr 30 37 ''UNO OLED'',
                drawStr 27 54 ''Ver 0.100'']
             else if current_display_message_code s = kAnalysisReset K then
               [drawStr 27 26 ''Analysis'', drawStr 27 45 ''Restarted'']
             else
               [drawStr 0 30 ''Message: '',
                drawStr 65 30
                  (snprintf 12 (printf_d 4 (uint (current_display_message_code s))))])
            @ [nextPage]))\<rparr>"
    by (rule renderCurrentDisplayMessage_exact)
qed

theorem render_pages_skip_while_message_active_witness:
  "current_display_message_code splash_state \<noteq> kNone example_codes
   \<and> timeMillis 500 (time_in_current_display_message splash_state)
        < ucast (current_display_message_min_time_millis splash_state)
   \<and> renderGraphPage 500 example_codes 120 100 splash_state = Some splash_state
   \<and> renderSummaryPage 500 example_codes 120 100 7 60 splash_state = Some splash_state
   \<and> u8g (renderCurrentDisplayMessage example_codes splash_state) =
       [firstPage,
        setFont u8g_font_8x13, drawRFrame 0 0 128 64 5, drawStr 22 19 ''Power Play'',
        drawStr 30 37 ''UNO OLED'', drawStr 27 54 ''Ver 0.100'', nextPage,
        setFont u8g_font_8x13, drawRFrame 0 0 128 64 5, drawStr 22 19 ''Power Play'',
        drawStr 30 37 ''UNO OLED'', drawStr 27 54 ''Ver 0.100'', nextPage,
        setFont u8g_font_8x13, drawRFrame 0 0 128 64 5, drawStr 22 19 ''Power Play'',
        drawStr 30 37 ''UNO OLED'', drawStr 27 54 ''Ver 0.100'', nextPage,
        setFont u8g_font_8x13, drawRFrame 0 0 128 64 5, drawStr 22 19 ''Power Play'',
        drawStr 30 37 ''UNO OLED'', drawStr 27 54 ''Ver 0.100'', nextPage]"
proof -
  have h1: "current_display_message_code splash_state \<noteq> kNone example_codes"
    by (simp add: splash_state_def zero_state_def example_codes_def)
  have h2: "timeMillis 500 (time_in_current_display_message splash_state)
        < ucast (current_display_message_min_time_millis splash_state)"
    by (simp add: splash_state_def zero_state_def timeMillis_def)
  have h3: "current_display_message_code splash_state = kSplashScreen example_codes"
    and h4: "u8g splash_state = []"
    by (simp_all add: splash_state_def zero_state_def example_codes_def)
  from render_pages_skip_while_message_active
    [of splash_state example_codes 500 120 100 7 60] h1 h2
  have "renderGraphPage 500 example_codes 120 100 splash_state = Some splash_state"
    and "renderSummaryPage 500 example_codes 120 100 7 60 splash_state = Some splash_state"
    and "u8g (renderCurrentDisplayMessage example_codes splash_state) =
       u8g splash_state @ firstPage #
         concat (replicate 4
           (setFont u8g_font_8x13 # drawRFrame 0 0 128 64 5 #
            [drawStr 22 19 ''Power Play'', drawStr 30 37 ''UNO OLED'',
             drawStr 27 54 ''Ver 0.100''] @ [nextPage]))"
    by (simp_all add: h3)
  then show ?thesis using h1 h2
    by (simp add: h4 numeral_eq_Suc)
qed

text \<open>
  Claim C7, as stated: \<open>activateDisplayMessage\<close> with the NONE code never changes the
  message state. It does: in a state where the splash message is showing, the call sets
  the code to NONE.
\<close>

theorem activateDisplayMessage_none_counterexample:
  "current_display_message_code
     (activateDisplayMessage 500 example_codes (kNone example_codes) 1000 splash_state)
   \<noteq> current_display_message_code splash_state"
  by (simp add: activateDisplayMessage_fields example_codes_def splash_state_def)

text \<open>
  Claim C7, amended: \<open>activateDisplayMessage\<close> with the NONE code, for any minimum
  duration and from any prior state, never triggers a redraw: it issues no call to the
  display. It sets the message code to NONE (which clears an active message), stores the
  given minimum duration and restarts the timer; nothing else changes.
\<close>

theorem activateDisplayMessage_none:
  "activateDisplayMessage now K (kNone K) d s =
     s\<lparr>current_display_message_code := kNone K,
       current_display_message_min_time_millis := d,
       time_in_current_display_message := restart now (time_in_current_display_message s)\<rparr>
   \<and> u8g (activateDisplayMessage now K (kNone K) d s) = u8g s"
  by (simp add: activateDisplayMessage_unfold)



end
